theory Spec2Isabelle
  imports Main "HOL-Library.Word"
begin

unbundle bit_operations_syntax

section \<open>The malloc service of \<^verbatim>\<open>src/mem/malloc_server.c\<close>\<close>

text \<open>
  The server keeps a linked list of named blocks and answers one text line per request
  line. The embedding follows the C file function by function. Machine types are those
  of an LP64 host: \<^verbatim>\<open>size_t\<close> and \<^verbatim>\<open>unsigned long long\<close> are 64-bit words,
  \<^verbatim>\<open>uint32_t\<close> is a 32-bit word, a byte of a block is an 8-bit word, and text is
  a \<^typ>\<open>string\<close> (a C string: it ends before its first NUL).
\<close>

type_synonym u8 = "8 word"
type_synonym u32 = "32 word"
type_synonym size_t = "64 word"

definition BUFSIZE :: nat where
  "BUFSIZE = 8192"

subsection \<open>The host allocator\<close>

text \<open>
  \<^verbatim>\<open>malloc\<close> is the host's. Whether a request of \<open>n\<close> bytes is granted, and which
  stale bytes a granted block holds, are inputs of the model: a \<open>host\<close> is the allocator
  as it answers during one command, and a session takes one with every line, so that
  two blocks of one session need not hold the same bytes. The three requests whose
  result the C code tests (the block of \<^verbatim>\<open>add_alloc\<close> and the output buffers of the
  two base64 helpers) go through it. The requests whose result the code never tests
  (\<^verbatim>\<open>strdup\<close> of the line and of the name, the list node) are taken to be granted.
\<close>

record host =
  malloc_ok :: "nat \<Rightarrow> bool"
  garbage :: "nat \<Rightarrow> u8"

definition malloc :: "host \<Rightarrow> nat \<Rightarrow> u8 list option" where
  "malloc h n = (if malloc_ok h n then Some (map (garbage h) [0..<n]) else None)"

subsection \<open>The allocation registry\<close>

text \<open>
  \<^verbatim>\<open>struct AllocNode\<close>: the field \<open>ptr\<close> holds the bytes of the block it points to
  (the registry is the only owner of a block), \<open>size_n\<close> is the field
  \<^verbatim>\<open>size\<close>, and \<^verbatim>\<open>next\<close> is the tail of the list. \<^verbatim>\<open>alloc_head\<close> is the
  list itself, passed in and returned.
\<close>

record AllocNode =
  name :: string
  ptr :: "u8 list"
  size_n :: size_t

fun find_alloc :: "AllocNode list \<Rightarrow> string \<Rightarrow> AllocNode option" where
  "find_alloc [] nm = None"
| "find_alloc (n # ns) nm = (if name n = nm then Some n else find_alloc ns nm)"

definition add_alloc :: "host \<Rightarrow> AllocNode list \<Rightarrow> string \<Rightarrow> size_t \<Rightarrow> int \<times> AllocNode list" where
  "add_alloc h alloc_head nm sz =
     (if find_alloc alloc_head nm \<noteq> None then (- 1, alloc_head)
      else case malloc h (if sz \<noteq> 0 then unat sz else 1) of
             None \<Rightarrow> (- 2, alloc_head)
           | Some p \<Rightarrow> (0, \<lparr>name = nm, ptr = p, size_n = sz\<rparr> # alloc_head))"

fun remove_alloc :: "AllocNode list \<Rightarrow> string \<Rightarrow> int \<times> AllocNode list" where
  "remove_alloc [] nm = (- 1, [])"
| "remove_alloc (n # ns) nm =
     (if name n = nm then (0, ns)
      else (fst (remove_alloc ns nm), n # snd (remove_alloc ns nm)))"

text \<open>
  A write goes through the pointer \<^verbatim>\<open>find_alloc\<close> returned, that is into the block
  of the first node of that name: \<open>set_block\<close> puts the new bytes of that block back into
  the list.
\<close>

fun set_block :: "AllocNode list \<Rightarrow> string \<Rightarrow> u8 list \<Rightarrow> AllocNode list" where
  "set_block [] nm p = []"
| "set_block (n # ns) nm p =
     (if name n = nm then n\<lparr>ptr := p\<rparr> # ns else n # set_block ns nm p)"

definition memcpy :: "u8 list \<Rightarrow> nat \<Rightarrow> u8 list \<Rightarrow> u8 list" where
  "memcpy block off data = take off block @ data @ drop (off + length data) block"

subsection \<open>The base64 helpers\<close>

definition b64chars :: string where
  "b64chars = ''ABCDEFGHIJKLMNOPQRSTUVWXYZabcdefghijklmnopqrstuvwxyz0123456789+/''"

definition sextet :: "u32 \<Rightarrow> nat \<Rightarrow> char" where
  "sextet triple sh = b64chars ! unat (drop_bit sh triple AND 0x3F)"

text \<open>
  The loop of \<^verbatim>\<open>base64_encode\<close> takes three bytes a round; what is left (one or two
  bytes) is the padded tail.
\<close>

fun encode_groups :: "u8 list \<Rightarrow> string" where
  "encode_groups (a # b # c # rest) =
     (let triple = push_bit 16 (ucast a) OR push_bit 8 (ucast b) OR ucast c
      in [sextet triple 18, sextet triple 12, sextet triple 6, sextet triple 0]
         @ encode_groups rest)"
| "encode_groups [a, b] =
     (let triple = push_bit 16 (ucast a) OR push_bit 8 (ucast b)
      in [sextet triple 18, sextet triple 12, sextet triple 6, CHR ''=''])"
| "encode_groups [a] =
     (let triple = push_bit 16 (ucast a) OR 0
      in [sextet triple 18, sextet triple 12, CHR ''='', CHR ''=''])"
| "encode_groups [] = []"

text \<open>
  \<^verbatim>\<open>base64_encode\<close> requests \<^verbatim>\<open>out_len + 1\<close> bytes before it reads anything, with
  \<^verbatim>\<open>out_len = ((len + 2) / 3) * 4\<close> taken in \<^verbatim>\<open>size_t\<close>. \<open>base64_encode h data\<close> is
  the call on the bytes \<open>data\<close> with their number as \<^verbatim>\<open>len\<close>.
\<close>

definition encode_request :: "size_t \<Rightarrow> nat" where
  "encode_request len = (let out_len = ((len + 2) div 3) * 4 in unat (out_len + 1))"

definition base64_encode :: "host \<Rightarrow> u8 list \<Rightarrow> string option" where
  "base64_encode h data =
     (if \<not> malloc_ok h (encode_request (of_nat (length data))) then None
      else Some (encode_groups data))"

definition in_range :: "char \<Rightarrow> char \<Rightarrow> char \<Rightarrow> bool" where
  "in_range lo hi c = ((of_char lo :: nat) \<le> of_char c \<and> (of_char c :: nat) \<le> of_char hi)"

definition b64val :: "char \<Rightarrow> int" where
  "b64val c =
     (if in_range (CHR ''A'') (CHR ''Z'') c then of_char c - of_char (CHR ''A'')
      else if in_range (CHR ''a'') (CHR ''z'') c then of_char c - of_char (CHR ''a'') + 26
      else if in_range (CHR ''0'') (CHR ''9'') c then of_char c - of_char (CHR ''0'') + 52
      else if c = CHR ''+'' then 62
      else if c = CHR ''/'' then 63
      else - 1)"

text \<open>
  One round of the loop of \<^verbatim>\<open>base64_decode\<close> reads four characters and appends one
  to three bytes to \<open>out\<close>; the length test before the loop leaves no shorter rest.
\<close>

fun decode_loop :: "string \<Rightarrow> u8 list \<Rightarrow> u8 list option" where
  "decode_loop (c0 # c1 # c2 # c3 # rest) out =
     (let v0 = b64val c0;
          v1 = b64val c1;
          v2 = (if c2 = CHR ''='' then - 2 else b64val c2);
          v3 = (if c3 = CHR ''='' then - 2 else b64val c3)
      in if v0 < 0 \<or> v1 < 0 \<or> v2 < - 1 \<or> v3 < - 1 then None
         else
           (let triple = (push_bit 18 (word_of_int v0) OR push_bit 12 (word_of_int v1)
                          OR push_bit 6 (word_of_int (if v2 > - 1 then v2 else 0))
                          OR word_of_int (if v3 > - 1 then v3 else 0) :: u32)
            in decode_loop rest
                 (out @ [ucast (drop_bit 16 triple AND 0xFF)]
                      @ (if v2 > - 1 then [ucast (drop_bit 8 triple AND 0xFF)] else [])
                      @ (if v3 > - 1 then [ucast (triple AND 0xFF)] else []))))"
| "decode_loop rest out = Some out"

definition base64_decode :: "host \<Rightarrow> string \<Rightarrow> u8 list option" where
  "base64_decode h inp =
     (let len = length inp
      in if len mod 4 \<noteq> 0 then None
         else if \<not> malloc_ok h ((len div 4) * 3) then None
         else decode_loop inp [])"

subsection \<open>Library calls of the dispatcher\<close>

text \<open>
  \<^verbatim>\<open>strtoull(s, NULL, 10)\<close> of the C library: it skips white space, takes one sign,
  reads decimal digits as far as they go (none give 0), returns \<^verbatim>\<open>ULLONG_MAX\<close> when
  the value does not fit, and negates within the unsigned type after a minus sign.
\<close>

definition isspace :: "char \<Rightarrow> bool" where
  "isspace c = (c = CHR '' '' \<or> in_range (CHR 0x09) (CHR 0x0D) c)"

definition isdigit :: "char \<Rightarrow> bool" where
  "isdigit c = in_range (CHR ''0'') (CHR ''9'') c"

fun digits_value :: "nat \<Rightarrow> string \<Rightarrow> nat" where
  "digits_value acc [] = acc"
| "digits_value acc (c # cs) = digits_value (acc * 10 + (of_char c - of_char (CHR ''0''))) cs"

definition strtoull :: "string \<Rightarrow> size_t" where
  "strtoull s =
     (let s1 = dropWhile isspace s;
          neg = (take 1 s1 = ''-'');
          s2 = (if take 1 s1 = ''-'' \<or> take 1 s1 = ''+'' then drop 1 s1 else s1);
          v = digits_value 0 (takeWhile isdigit s2)
      in if v > 2 ^ 64 - 1 then - 1
         else if neg then - of_nat v
         else of_nat v)"

text \<open>\<^verbatim>\<open>strdup\<close> copies a C string: the characters before the first NUL.\<close>

definition strdup :: "string \<Rightarrow> string" where
  "strdup s = takeWhile (\<lambda>c. c \<noteq> CHR 0x00) s"

text \<open>
  \<^verbatim>\<open>strtok(_, " ")\<close>: the next run of characters other than the space, and the text
  after the delimiter that ended it (the position the next call resumes from). No run
  left is \<^verbatim>\<open>NULL\<close>.
\<close>

definition strtok :: "string \<Rightarrow> string option \<times> string" where
  "strtok s =
     (case dropWhile (\<lambda>c. c = CHR '' '') s of
        [] \<Rightarrow> (None, [])
      | c # cs \<Rightarrow> (Some (takeWhile (\<lambda>c. c \<noteq> CHR '' '') (c # cs)),
                  drop 1 (dropWhile (\<lambda>c. c \<noteq> CHR '' '') (c # cs))))"

text \<open>The conversion \<^verbatim>\<open>%zu\<close> of \<^verbatim>\<open>snprintf\<close>: decimal, no leading zero.\<close>

fun dec :: "nat \<Rightarrow> string" where
  "dec n = (if n < 10 then [char_of (48 + n)]
            else dec (n div 10) @ [char_of (48 + n mod 10)])"

declare dec.simps [simp del]

subsection \<open>Sending a line\<close>

text \<open>
  \<^verbatim>\<open>send_line\<close> formats into \<^verbatim>\<open>buf[BUFSIZE]\<close> with the limit \<^verbatim>\<open>sizeof(buf)-2\<close>,
  then writes the newline at index \<open>n\<close>, the length the text would have had, and sends
  \<open>n + 1\<close> bytes. A text shorter than the limit goes out whole. One of exactly
  \<open>BUFSIZE - 2\<close> characters goes out cut, with the terminating NUL in the place of its
  last character. A longer one makes the function send a byte it never wrote or store
  the newline outside \<^verbatim>\<open>buf\<close>: the model stops there with a fault, as it does where a
  block is accessed outside its bytes.
\<close>

datatype fault = Wild_write | Wild_read | Send_overrun

definition send_line :: "string \<Rightarrow> fault + string" where
  "send_line text =
     (let n = length text
      in if n < BUFSIZE - 2 then Inr text
         else if n = BUFSIZE - 2 then Inr (take (BUFSIZE - 3) text @ [CHR 0x00])
         else Inl Send_overrun)"

definition reply :: "AllocNode list \<Rightarrow> string \<Rightarrow> fault + (string \<times> AllocNode list)" where
  "reply alloc_head text =
     (case send_line text of Inl f \<Rightarrow> Inl f | Inr sent \<Rightarrow> Inr (sent, alloc_head))"

subsection \<open>The listing of \<^verbatim>\<open>LIST\<close>\<close>

text \<open>
  The loop over the nodes in \<^verbatim>\<open>handle_command\<close>: \<^verbatim>\<open>snprintf\<close> with the limit
  \<^verbatim>\<open>sizeof(out) - pos - 1\<close> stores at most \<open>BUFSIZE - pos - 2\<close> characters of the
  item at \<open>out + pos\<close> and returns the item's full length, which is added to \<open>pos\<close>; the
  loop leaves once \<open>pos + 100\<close> reaches \<open>BUFSIZE\<close>. \<open>list_item\<close> is the text the format
  \<^verbatim>\<open>"%s:%zu;"\<close> makes of a node.
\<close>

definition list_item :: "AllocNode \<Rightarrow> string" where
  "list_item n = name n @ '':'' @ dec (unat (size_n n)) @ '';''"

fun list_entries :: "AllocNode list \<Rightarrow> nat \<Rightarrow> string \<Rightarrow> string" where
  "list_entries [] pos out = out"
| "list_entries (n # ns) pos out =
     (let item = list_item n;
          written = length item;
          out' = take pos out @ take (BUFSIZE - pos - 2) item;
          pos' = pos + written
      in if pos' + 100 \<ge> BUFSIZE then out' else list_entries ns pos' out')"

subsection \<open>The command dispatcher\<close>

text \<open>
  \<^verbatim>\<open>handle_command\<close> takes the registry and the line, and gives the text that went
  out (without its newline) with the registry after the command, or the fault it stopped
  at. The result of \<^verbatim>\<open>send_line\<close> is dropped in the C code as well. In the
  \<^verbatim>\<open>READ\<close> branch \<^verbatim>\<open>base64_encode\<close> is called on \<^verbatim>\<open>len\<close> bytes at
  \<^verbatim>\<open>ptr + offset\<close>: where they lie in the block it is \<open>base64_encode\<close> of these
  bytes; where they do not, the request for the output buffer still comes first, and only a
  granted one is followed by the read outside the block.
\<close>

definition handle_command ::
  "host \<Rightarrow> AllocNode list \<Rightarrow> string \<Rightarrow> fault + (string \<times> AllocNode list)" where
  "handle_command h alloc_head line =
     (let copy = strdup line;
          (tok, rest0) = strtok copy
      in case tok of
           None \<Rightarrow> reply alloc_head ''ERR empty''
         | Some cmd \<Rightarrow>
             if cmd = ''ALLOC'' then
               (let (nm, rest1) = strtok rest0;
                    (size_s, rest2) = strtok rest1
                in case (nm, size_s) of
                     (Some nm, Some size_s) \<Rightarrow>
                       (let sz = strtoull size_s;
                            (rc, alloc_head') = add_alloc h alloc_head nm sz
                        in if rc = 0 then reply alloc_head' ''OK''
                           else if rc = - 1 then reply alloc_head' ''ERR already_exists''
                           else reply alloc_head' ''ERR nomem'')
                   | _ \<Rightarrow> reply alloc_head ''ERR ALLOC usage'')
             else if cmd = ''WRITE'' then
               (let (nm, rest1) = strtok rest0;
                    (offset_s, rest2) = strtok rest1;
                    (b64, rest3) = strtok rest2
                in case (nm, offset_s, b64) of
                     (Some nm, Some offset_s, Some b64) \<Rightarrow>
                       (case find_alloc alloc_head nm of
                          None \<Rightarrow> reply alloc_head ''ERR not_found''
                        | Some n \<Rightarrow>
                            (let offset = strtoull offset_s
                             in case base64_decode h b64 of
                                  None \<Rightarrow> reply alloc_head ''ERR bad_base64''
                                | Some data \<Rightarrow>
                                    (let data_len = (of_nat (length data) :: size_t)
                                     in if offset + data_len > size_n n
                                        then reply alloc_head ''ERR out_of_bounds''
                                        else if unat offset + length data \<le> length (ptr n)
                                        then reply
                                               (set_block alloc_head nm
                                                  (memcpy (ptr n) (unat offset) data))
                                               ''OK''
                                        else Inl Wild_write)))
                   | _ \<Rightarrow> reply alloc_head ''ERR WRITE usage'')
             else if cmd = ''READ'' then
               (let (nm, rest1) = strtok rest0;
                    (offset_s, rest2) = strtok rest1;
                    (len_s, rest3) = strtok rest2
                in case (nm, offset_s, len_s) of
                     (Some nm, Some offset_s, Some len_s) \<Rightarrow>
                       (case find_alloc alloc_head nm of
                          None \<Rightarrow> reply alloc_head ''ERR not_found''
                        | Some n \<Rightarrow>
                            (let offset = strtoull offset_s;
                                 len = strtoull len_s
                             in if offset + len > size_n n
                                then reply alloc_head ''ERR out_of_bounds''
                                else if unat offset + unat len \<le> length (ptr n)
                                then (case base64_encode h
                                             (take (unat len) (drop (unat offset) (ptr n))) of
                                        None \<Rightarrow> reply alloc_head ''ERR nomem''
                                      | Some b64 \<Rightarrow> reply alloc_head (''OK '' @ b64))
                                else if \<not> malloc_ok h (encode_request len)
                                then reply alloc_head ''ERR nomem''
                                else Inl Wild_read))
                   | _ \<Rightarrow> reply alloc_head ''ERR READ usage'')
             else if cmd = ''FREE'' then
               (let (nm, rest1) = strtok rest0
                in case nm of
                     None \<Rightarrow> reply alloc_head ''ERR FREE usage''
                   | Some nm \<Rightarrow>
                       (let (rc, alloc_head') = remove_alloc alloc_head nm
                        in if rc = 0 then reply alloc_head' ''OK''
                           else reply alloc_head' ''ERR not_found''))
             else if cmd = ''LIST'' then
               reply alloc_head (''OK '' @ list_entries alloc_head 0 [])
             else if cmd = ''EXIT'' then
               reply alloc_head ''OK bye''
             else reply alloc_head ''ERR unknown_command'')"

subsection \<open>The session loop\<close>

text \<open>
  The inner loop of \<^verbatim>\<open>main\<close>. What \<^verbatim>\<open>recv_line\<close> delivers, call after call, is the
  input: \<open>Some (h, line)\<close> for a line, with the host \<open>h\<close> as it answers while the line
  is handled, or \<open>None\<close> for its \<^verbatim>\<open>NULL\<close> (end of stream, a read error).
  The loop leaves, and the socket is closed, at the first \<open>None\<close>; with no delivery left
  the server waits in \<^verbatim>\<open>recv\<close>. The output is what went to the socket, in order.
\<close>

datatype wire = Sent string | Closed | Stopped fault

fun session :: "AllocNode list \<Rightarrow> (host \<times> string) option list \<Rightarrow> wire list \<times> AllocNode list" where
  "session alloc_head [] = ([], alloc_head)"
| "session alloc_head (None # later) = ([Closed], alloc_head)"
| "session alloc_head (Some (h, line) # later) =
     (case handle_command h alloc_head line of
        Inl f \<Rightarrow> ([Stopped f], alloc_head)
      | Inr (sent, alloc_head') \<Rightarrow>
          (Sent sent # fst (session alloc_head' later), snd (session alloc_head' later)))"

subsection \<open>Tokens, hosts and nodes of the statements\<close>

text \<open>
  A token of a request line: a non-empty run without the space (the delimiter of
  \<^verbatim>\<open>strtok\<close>) and without NUL (the end of a C string).
\<close>

definition is_token :: "string \<Rightarrow> bool" where
  "is_token t = (t \<noteq> [] \<and> CHR '' '' \<notin> set t \<and> CHR 0x00 \<notin> set t)"

text \<open>
  Two hosts: one grants every request, one refuses a request of \<open>2\<^sup>3\<^sup>2\<close> bytes or more.
  Both hand out blocks of zero bytes. \<open>foo10\<close> is the node that \<^verbatim>\<open>ALLOC foo 10\<close> makes
  on them.
\<close>

definition generous :: host where
  "generous = \<lparr>malloc_ok = (\<lambda>n. True), garbage = (\<lambda>i. 0)\<rparr>"

definition bounded_host :: host where
  "bounded_host = \<lparr>malloc_ok = (\<lambda>n. n < 2 ^ 32), garbage = (\<lambda>i. 0)\<rparr>"

definition foo10 :: AllocNode where
  "foo10 = \<lparr>name = ''foo'', ptr = replicate 10 0, size_n = 10\<rparr>"

text \<open>
  The error tokens the specification lists (section 6), for the claim about
  \<^verbatim>\<open>ERR empty\<close>.
\<close>

definition documented_errors :: "string list" where
  "documented_errors =
     [''already_exists'', ''nomem'', ''not_found'', ''bad_base64'', ''out_of_bounds'',
      ''unknown_command'']"

text \<open>The five bytes of \<^verbatim>\<open>hello\<close>, the payload of the scenario of the specification.\<close>

definition hello :: "u8 list" where
  "hello = [104, 101, 108, 108, 111]"

text \<open>A node with a block of 6141 zero bytes.\<close>

definition big_node :: AllocNode where
  "big_node = \<lparr>name = ''big'', ptr = replicate 6141 0, size_n = 6141\<rparr>"

text \<open>
  Two nodes whose names are 8100 and 8192 characters long, for the limits of the
  listing, and the node that \<^verbatim>\<open>ALLOC b 0\<close> makes.
\<close>

definition long_node :: AllocNode where
  "long_node = \<lparr>name = replicate 8100 (CHR ''a''), ptr = [0], size_n = 1\<rparr>"

definition huge_node :: AllocNode where
  "huge_node = \<lparr>name = replicate 8192 (CHR ''a''), ptr = [0], size_n = 1\<rparr>"

definition b0 :: AllocNode where
  "b0 = \<lparr>name = ''b'', ptr = [0], size_n = 0\<rparr>"

text \<open>
  The block of a node is as long as \<^verbatim>\<open>add_alloc\<close> requested it: the recorded size, or
  one byte for the size 0.
\<close>

definition block_sized :: "AllocNode \<Rightarrow> bool" where
  "block_sized n = (length (ptr n) = (if size_n n \<noteq> 0 then unat (size_n n) else 1))"

section \<open>Facts about the tokenizer, the registry and the dispatcher\<close>

lemma strtok_run:
  "t \<noteq> [] \<Longrightarrow> CHR '' '' \<notin> set t \<Longrightarrow> strtok (t @ CHR '' '' # r) = (Some t, r)"
proof -
  assume t: "t \<noteq> []" and sp: "CHR '' '' \<notin> set t"
  have keep: "\<And>x. x \<in> set t \<Longrightarrow> x \<noteq> CHR '' ''"
    using sp by auto
  have "dropWhile (\<lambda>c. c = CHR '' '') (t @ CHR '' '' # r) = t @ CHR '' '' # r"
    using t sp by (cases t) auto
  moreover have "takeWhile (\<lambda>c. c \<noteq> CHR '' '') (t @ CHR '' '' # r) = t"
    using keep by (simp add: takeWhile_append2)
  moreover have "dropWhile (\<lambda>c. c \<noteq> CHR '' '') (t @ CHR '' '' # r) = CHR '' '' # r"
    using keep by (simp add: dropWhile_append2)
  ultimately show ?thesis
    using t by (cases t) (simp_all add: strtok_def)
qed

lemma strtok_last:
  "t \<noteq> [] \<Longrightarrow> CHR '' '' \<notin> set t \<Longrightarrow> strtok t = (Some t, [])"
proof -
  assume t: "t \<noteq> []" and sp: "CHR '' '' \<notin> set t"
  have keep: "\<And>x. x \<in> set t \<Longrightarrow> x \<noteq> CHR '' ''"
    using sp by auto
  have "dropWhile (\<lambda>c. c = CHR '' '') t = t"
    using t sp by (cases t) auto
  moreover have "takeWhile (\<lambda>c. c \<noteq> CHR '' '') t = t"
    using keep by (simp add: takeWhile_eq_all_conv)
  moreover have "dropWhile (\<lambda>c. c \<noteq> CHR '' '') t = []"
    using keep by (simp add: dropWhile_eq_Nil_conv)
  ultimately show ?thesis
    using t by (cases t) (simp_all add: strtok_def)
qed

lemma strtok_Nil: "strtok [] = (None, [])"
  by (simp add: strtok_def)

lemma strdup_id: "CHR 0x00 \<notin> set s \<Longrightarrow> strdup s = s"
  by (auto simp: strdup_def takeWhile_eq_all_conv)

lemma send_short: "length text < 8190 \<Longrightarrow> send_line text = Inr text"
  by (simp add: send_line_def BUFSIZE_def)

lemma reply_short: "length text < 8190 \<Longrightarrow> reply reg text = Inr (text, reg)"
  by (simp add: reply_def send_short)

lemma handle_ALLOC:
  assumes "is_token nm" "is_token size_s"
  shows "handle_command h reg (''ALLOC '' @ nm @ '' '' @ size_s) =
     (let r = add_alloc h reg nm (strtoull size_s)
      in if fst r = 0 then Inr (''OK'', snd r)
         else if fst r = - 1 then Inr (''ERR already_exists'', snd r)
         else Inr (''ERR nomem'', snd r))"
  using assms
  by (simp add: handle_command_def is_token_def strdup_id strtok_run strtok_last
      strtok_run [of "''ALLOC''", simplified] reply_short Let_def split: prod.splits)

lemma handle_FREE:
  assumes "is_token nm"
  shows "handle_command h reg (''FREE '' @ nm) =
     (let r = remove_alloc reg nm
      in if fst r = 0 then Inr (''OK'', snd r) else Inr (''ERR not_found'', snd r))"
  using assms
  by (simp add: handle_command_def is_token_def strdup_id strtok_run strtok_last
      strtok_run [of "''FREE''", simplified] reply_short Let_def split: prod.splits)

lemma find_alloc_None_iff: "find_alloc reg nm = None \<longleftrightarrow> nm \<notin> set (map name reg)"
  by (induction reg) auto

lemma find_alloc_name: "find_alloc reg nm = Some n \<Longrightarrow> name n = nm"
  by (induction reg) (auto split: if_splits)

lemma remove_alloc_found: "find_alloc reg nm \<noteq> None \<Longrightarrow> fst (remove_alloc reg nm) = 0"
  by (induction reg) auto

lemma remove_alloc_missing: "find_alloc reg nm = None \<Longrightarrow> remove_alloc reg nm = (- 1, reg)"
  by (induction reg) auto

lemma remove_alloc_filter:
  "distinct (map name reg) \<Longrightarrow> snd (remove_alloc reg nm) = filter (\<lambda>n. name n \<noteq> nm) reg"
proof (induction reg)
  case Nil
  then show ?case by simp
next
  case (Cons n ns)
  show ?case
  proof (cases "name n = nm")
    case True
    have "nm \<notin> name ` set ns"
      using True Cons.prems by simp
    then have "\<forall>m \<in> set ns. name m \<noteq> nm"
      by (metis imageI)
    then have "filter (\<lambda>n. name n \<noteq> nm) ns = ns" by (simp add: filter_id_conv)
    with True show ?thesis by simp
  next
    case False
    with Cons show ?thesis by simp
  qed
qed

lemma remove_alloc_subseq: "set (snd (remove_alloc reg nm)) \<subseteq> set reg"
  by (induction reg) auto

lemma remove_alloc_distinct:
  "distinct (map name reg) \<Longrightarrow> distinct (map name (snd (remove_alloc reg nm)))"
proof (induction reg)
  case Nil
  then show ?case by simp
next
  case (Cons n ns)
  have "name n \<notin> name ` set (snd (remove_alloc ns nm))"
    using Cons.prems remove_alloc_subseq [of ns nm] by auto
  with Cons show ?case by simp
qed

lemma set_block_names: "map name (set_block reg nm p) = map name reg"
  by (induction reg) auto

lemma add_alloc_distinct:
  "distinct (map name reg) \<Longrightarrow> distinct (map name (snd (add_alloc h reg nm sz)))"
  by (auto simp: add_alloc_def malloc_def find_alloc_None_iff)

lemma add_alloc_inv:
  "add_alloc h reg nm sz = (rc, reg') \<Longrightarrow> distinct (map name reg) \<Longrightarrow> distinct (map name reg')"
  using add_alloc_distinct [of reg h nm sz] by simp

lemma remove_alloc_inv:
  "remove_alloc reg nm = (rc, reg') \<Longrightarrow> distinct (map name reg) \<Longrightarrow> distinct (map name reg')"
  using remove_alloc_distinct [of reg nm] by simp

lemma handle_command_distinct:
  assumes "handle_command h reg line = Inr (sent, reg')" "distinct (map name reg)"
  shows "distinct (map name reg')"
  using assms
  unfolding handle_command_def reply_def Let_def
  by (auto split: prod.splits option.splits if_splits sum.splits
      dest: add_alloc_inv remove_alloc_inv simp: set_block_names)

lemma strtoull_samples:
  "strtoull ''0'' = 0" "strtoull ''10'' = 10" "strtoull ''5'' = 5"
  "strtoull ''18446744073709551615'' = 18446744073709551615"
  "strtoull ''18446744073709551613'' = 18446744073709551613"
  by (simp_all add: strtoull_def isspace_def isdigit_def in_range_def)

lemma session_distinct:
  "distinct (map name reg) \<Longrightarrow> distinct (map name (snd (session reg evs)))"
proof (induction evs arbitrary: reg)
  case Nil
  then show ?case by simp
next
  case (Cons ev evs)
  show ?case
  proof (cases ev)
    case None
    with Cons.prems show ?thesis by simp
  next
    case (Some delivery)
    obtain h line where delivery: "delivery = (h, line)" by (cases delivery)
    show ?thesis
    proof (cases "handle_command h reg line")
      case (Inl f)
      with Some delivery Cons.prems show ?thesis by simp
    next
      case (Inr res)
      obtain sent reg' where res: "res = (sent, reg')" by (cases res)
      have "distinct (map name reg')"
        using handle_command_distinct Inr res Cons.prems by blast
      then have "distinct (map name (snd (session reg' evs)))"
        by (rule Cons.IH)
      with Some delivery Inr res show ?thesis by simp
    qed
  qed
qed

lemma find_after_remove:
  "distinct (map name reg) \<Longrightarrow> find_alloc (snd (remove_alloc reg nm)) nm = None"
  by (auto simp: remove_alloc_filter find_alloc_None_iff)

lemma strtok_spaces: "set s \<subseteq> {CHR '' ''} \<Longrightarrow> strtok s = (None, [])"
proof -
  assume "set s \<subseteq> {CHR '' ''}"
  then have blank: "dropWhile (\<lambda>c. c = CHR '' '') s = []"
    by (auto simp: dropWhile_eq_Nil_conv)
  show ?thesis
    unfolding strtok_def blank by simp
qed

lemma session_Closed: "Closed \<in> set (fst (session reg evs)) \<Longrightarrow> None \<in> set evs"
proof (induction evs arbitrary: reg)
  case Nil
  then show ?case by simp
next
  case (Cons ev evs)
  then show ?case
    by (cases ev) (auto split: sum.splits prod.splits)
qed

lemma mask6: "(0x3F :: 32 word) = mask 6" by (simp add: mask_eq_exp_minus_1)
lemma mask8: "(0xFF :: 32 word) = mask 8" by (simp add: mask_eq_exp_minus_1)

lemma byte_high: "\<not> bit (c :: 8 word) (8 + n)" "\<not> bit (c :: 8 word) (16 + n)"
  by (auto dest: bit_imp_le_length)

lemma byte2:
  fixes a b c :: "8 word"
  shows "ucast ((push_bit 16 (ucast a) OR push_bit 8 (ucast b) OR ucast c :: 32 word) AND 0xFF) = c"
  unfolding mask8
  by (rule bit_word_eqI) (simp add: bit_simps)

lemma byte1:
  fixes a b c :: "8 word"
  shows "ucast (drop_bit 8 (push_bit 16 (ucast a) OR push_bit 8 (ucast b) OR ucast c :: 32 word) AND 0xFF) = b"
  unfolding mask8
  by (rule bit_word_eqI) (simp add: bit_simps byte_high)

lemma byte0:
  fixes a b c :: "8 word"
  shows "ucast (drop_bit 16 (push_bit 16 (ucast a) OR push_bit 8 (ucast b) OR ucast c :: 32 word) AND 0xFF) = a"
  unfolding mask8
  by (rule bit_word_eqI) (simp add: bit_simps byte_high)

lemma sextet_less: "unat ((w :: 32 word) AND 0x3F) < 64"
proof -
  have "unat (take_bit 6 w) < 64"
    using take_bit_nat_less_exp [of 6 "unat w"] by (simp add: unsigned_take_bit_eq)
  then show ?thesis
    by (simp add: mask6 take_bit_eq_mask)
qed

lemma regroup:
  fixes a b c :: "8 word"
  defines "t \<equiv> (push_bit 16 (ucast a) OR push_bit 8 (ucast b) OR ucast c :: 32 word)"
  shows "push_bit 18 (drop_bit 18 t AND 0x3F) OR push_bit 12 (drop_bit 12 t AND 0x3F)
         OR push_bit 6 (drop_bit 6 t AND 0x3F) OR (t AND 0x3F) = t"
proof (rule bit_word_eqI)
  fix n
  assume "n < LENGTH(32)"
  have top: "\<not> bit t n" if "24 \<le> n"
    using that unfolding t_def by (auto simp: bit_simps dest: bit_imp_le_length)
  consider "n < 6" | "6 \<le> n" "n < 12" | "12 \<le> n" "n < 18" | "18 \<le> n" "n < 24" | "24 \<le> n"
    by linarith
  then show "bit (push_bit 18 (drop_bit 18 t AND 0x3F) OR push_bit 12 (drop_bit 12 t AND 0x3F)
         OR push_bit 6 (drop_bit 6 t AND 0x3F) OR (t AND 0x3F)) n = bit t n"
  proof cases
    case 1
    then show ?thesis unfolding mask6 by (auto simp: bit_simps)
  next
    case 2
    then show ?thesis unfolding mask6 by (auto simp: bit_simps)
  next
    case 3
    then show ?thesis unfolding mask6 by (auto simp: bit_simps)
  next
    case 4
    then show ?thesis unfolding mask6 by (auto simp: bit_simps)
  next
    case 5
    then show ?thesis using top unfolding mask6 by (auto simp: bit_simps)
  qed
qed


lemma b64_table:
  "list_all (\<lambda>k. b64val (b64chars ! k) = int k \<and> b64chars ! k \<noteq> CHR ''='') [0..<64]"
  by (simp add: upt_rec numeral_nat b64chars_def b64val_def in_range_def)

lemma b64val_b64chars: "k < 64 \<Longrightarrow> b64val (b64chars ! k) = int k"
  using b64_table by (simp add: list_all_iff)

lemma b64chars_not_pad: "k < 64 \<Longrightarrow> b64chars ! k \<noteq> CHR ''=''"
  using b64_table by (simp add: list_all_iff)

lemma b64val_sextet: "b64val (sextet t sh) = int (unat (drop_bit sh t AND 0x3F))"
  by (simp add: sextet_def b64val_b64chars sextet_less)

lemma sextet_not_pad: "sextet t sh \<noteq> CHR ''=''"
  by (simp add: sextet_def b64chars_not_pad sextet_less)


lemma decode_step:
  fixes s0 s1 s2 s3 :: u32
  assumes "c2 \<noteq> CHR ''=''" and "c3 \<noteq> CHR ''=''"
    and "b64val c0 = uint s0" and "b64val c1 = uint s1"
    and "b64val c2 = uint s2" and "b64val c3 = uint s3"
  shows "decode_loop (c0 # c1 # c2 # c3 # rest) out
         = decode_loop rest
             (out @ [ucast (drop_bit 16 (push_bit 18 s0 OR push_bit 12 s1 OR push_bit 6 s2 OR s3)
                           AND 0xFF),
                     ucast (drop_bit 8 (push_bit 18 s0 OR push_bit 12 s1 OR push_bit 6 s2 OR s3)
                           AND 0xFF),
                     ucast ((push_bit 18 s0 OR push_bit 12 s1 OR push_bit 6 s2 OR s3) AND 0xFF)])"
proof -
  have nonneg: "\<not> uint s0 < 0" "\<not> uint s1 < 0" "\<not> uint s2 < - 1" "\<not> uint s3 < - 1"
    "uint s2 > - 1" "uint s3 > - 1"
    using uint_ge_0 [of s0] uint_ge_0 [of s1] uint_ge_0 [of s2] uint_ge_0 [of s3]
    by linarith+
  show ?thesis
    unfolding decode_loop.simps Let_def assms(3-6)
    by (simp only: assms(1,2) nonneg if_False if_True word_of_int_uint simp_thms append_Cons
        append_Nil)
qed

lemma decode_group:
  fixes a b c :: u8
  defines "t \<equiv> (push_bit 16 (ucast a) OR push_bit 8 (ucast b) OR ucast c :: u32)"
  shows "decode_loop (sextet t 18 # sextet t 12 # sextet t 6 # sextet t 0 # rest) out
         = decode_loop rest (out @ [a, b, c])"
proof -
  have whole: "push_bit 18 (drop_bit 18 t AND 0x3F) OR push_bit 12 (drop_bit 12 t AND 0x3F)
         OR push_bit 6 (drop_bit 6 t AND 0x3F) OR (t AND 0x3F) = t"
    unfolding t_def by (rule regroup)
  have bytes: "ucast (drop_bit 16 t AND 0xFF) = a" "ucast (drop_bit 8 t AND 0xFF) = b"
    "ucast (t AND 0xFF) = c"
    unfolding t_def by (rule byte0 byte1 byte2)+
  have "decode_loop (sextet t 18 # sextet t 12 # sextet t 6 # sextet t 0 # rest) out
        = decode_loop rest
            (out @ [ucast (drop_bit 16 (push_bit 18 (drop_bit 18 t AND 0x3F)
                       OR push_bit 12 (drop_bit 12 t AND 0x3F)
                       OR push_bit 6 (drop_bit 6 t AND 0x3F) OR (t AND 0x3F)) AND 0xFF),
                    ucast (drop_bit 8 (push_bit 18 (drop_bit 18 t AND 0x3F)
                       OR push_bit 12 (drop_bit 12 t AND 0x3F)
                       OR push_bit 6 (drop_bit 6 t AND 0x3F) OR (t AND 0x3F)) AND 0xFF),
                    ucast ((push_bit 18 (drop_bit 18 t AND 0x3F)
                       OR push_bit 12 (drop_bit 12 t AND 0x3F)
                       OR push_bit 6 (drop_bit 6 t AND 0x3F) OR (t AND 0x3F)) AND 0xFF)])"
    by (rule decode_step) (simp_all add: b64val_sextet sextet_not_pad)
  also have "\<dots> = decode_loop rest (out @ [a, b, c])"
    by (simp only: whole bytes)
  finally show ?thesis .
qed

lemma rest_mod3: "length (a # b # c # rest) mod 3 = length rest mod 3"
  by simp

lemma decode_encode_groups:
  "length bs mod 3 = 0 \<Longrightarrow> decode_loop (encode_groups bs) out = Some (out @ bs)"
proof (induction bs arbitrary: out rule: encode_groups.induct)
  case (1 a b c rest)
  have "length rest mod 3 = 0"
    using "1.prems" by simp
  then have "decode_loop (encode_groups rest) (out @ [a, b, c]) = Some ((out @ [a, b, c]) @ rest)"
    by (rule "1.IH" [OF refl])
  then show ?case
    using decode_group [of a b c "encode_groups rest" out] by (simp add: Let_def)
next
  case (2 a b)
  then show ?case by simp
next
  case (3 a)
  then show ?case by simp
next
  case 4
  then show ?case by simp
qed

lemma length_encode_groups: "length (encode_groups bs) = ((length bs + 2) div 3) * 4"
proof (induction bs rule: encode_groups.induct)
  case (1 a b c rest)
  have "(length (a # b # c # rest) + 2) div 3 = Suc ((length rest + 2) div 3)"
    by simp
  with 1 show ?case by (simp add: Let_def)
qed (simp_all add: Let_def)

lemma encode_groups_padded:
  "length bs mod 3 \<noteq> 0 \<Longrightarrow> decode_loop (encode_groups bs) out = None"
proof (induction bs arbitrary: out rule: encode_groups.induct)
  case (1 a b c rest)
  have "length rest mod 3 \<noteq> 0"
    using "1.prems" by simp
  then have "decode_loop (encode_groups rest) (out @ [a, b, c]) = None"
    by (rule "1.IH" [OF refl])
  then show ?case
    using decode_group [of a b c "encode_groups rest" out] by (simp add: Let_def)
next
  case (2 a b)
  then show ?case by (simp add: Let_def b64val_sextet)
next
  case (3 a)
  then show ?case by (simp add: Let_def b64val_sextet)
next
  case 4
  then show ?case by simp
qed

lemma replicate_10: "replicate 10 x = [x, x, x, x, x, x, x, x, x, x]"
  by (simp add: eval_nat_numeral)

lemma b64val_pad: "b64val (CHR ''='') = - 1"
  by (simp add: b64val_def in_range_def)

lemma decode_loop_pad:
  "CHR ''='' \<in> set inp \<Longrightarrow> length inp mod 4 = 0 \<Longrightarrow> decode_loop inp out = None"
proof (induction inp out rule: decode_loop.induct)
  case (1 c0 c1 c2 c3 rest out)
  show ?case
  proof (cases "CHR ''='' \<in> {c0, c1, c2, c3}")
    case True
    then show ?thesis
      by (auto simp: Let_def b64val_pad)
  next
    case False
    then have "CHR ''='' \<in> set rest" and "length rest mod 4 = 0"
      using "1.prems" by auto
    then show ?thesis
      using "1.IH" False by (auto simp: Let_def)
  qed
qed auto

lemma handle_WRITE:
  assumes "is_token nm" "is_token offset_s" "is_token b64"
  shows "handle_command h reg (''WRITE '' @ nm @ '' '' @ offset_s @ '' '' @ b64) =
     (case find_alloc reg nm of
        None \<Rightarrow> Inr (''ERR not_found'', reg)
      | Some n \<Rightarrow>
          (case base64_decode h b64 of
             None \<Rightarrow> Inr (''ERR bad_base64'', reg)
           | Some data \<Rightarrow>
               if strtoull offset_s + of_nat (length data) > size_n n
               then Inr (''ERR out_of_bounds'', reg)
               else if unat (strtoull offset_s) + length data \<le> length (ptr n)
               then Inr (''OK'', set_block reg nm (memcpy (ptr n) (unat (strtoull offset_s)) data))
               else Inl Wild_write))"
  using assms
  by (simp add: handle_command_def is_token_def strdup_id strtok_run strtok_last
      strtok_run [of "''WRITE''", simplified] reply_short Let_def
      split: prod.splits option.splits)

lemma handle_READ:
  assumes "is_token nm" "is_token offset_s" "is_token len_s"
  shows "handle_command h reg (''READ '' @ nm @ '' '' @ offset_s @ '' '' @ len_s) =
     (case find_alloc reg nm of
        None \<Rightarrow> Inr (''ERR not_found'', reg)
      | Some n \<Rightarrow>
          if strtoull offset_s + strtoull len_s > size_n n
          then Inr (''ERR out_of_bounds'', reg)
          else if unat (strtoull offset_s) + unat (strtoull len_s) \<le> length (ptr n)
          then (case base64_encode h
                       (take (unat (strtoull len_s)) (drop (unat (strtoull offset_s)) (ptr n))) of
                  None \<Rightarrow> Inr (''ERR nomem'', reg)
                | Some b64 \<Rightarrow> reply reg (''OK '' @ b64))
          else if \<not> malloc_ok h (encode_request (strtoull len_s))
          then Inr (''ERR nomem'', reg)
          else Inl Wild_read)"
  using assms
  by (simp add: handle_command_def is_token_def strdup_id strtok_run strtok_last
      strtok_run [of "''READ''", simplified] reply_short Let_def
      split: prod.splits option.splits)

lemma find_set_block:
  "find_alloc reg nm = Some n \<Longrightarrow> find_alloc (set_block reg nm p) nm = Some (n\<lparr>ptr := p\<rparr>)"
  by (induction reg) (auto split: if_splits)

lemma read_after_memcpy:
  "off + length data \<le> length block \<Longrightarrow> take (length data) (drop off (memcpy block off data)) = data"
  by (simp add: memcpy_def)

lemma length_memcpy:
  "off + length data \<le> length block \<Longrightarrow> length (memcpy block off data) = length block"
  by (simp add: memcpy_def)

lemma sextet_in_alphabet: "sextet t sh \<in> set b64chars"
proof -
  have "unat (drop_bit sh t AND 0x3F) < length b64chars"
    using sextet_less [of "drop_bit sh t"] by (simp add: b64chars_def)
  then show ?thesis
    unfolding sextet_def by (rule nth_mem)
qed

lemma encode_groups_chars: "set (encode_groups bs) \<subseteq> insert (CHR ''='') (set b64chars)"
  by (induction bs rule: encode_groups.induct) (auto simp: Let_def sextet_in_alphabet)

lemma encode_groups_token: "bs \<noteq> [] \<Longrightarrow> is_token (encode_groups bs)"
proof -
  assume "bs \<noteq> []"
  then have "encode_groups bs \<noteq> []"
    by (cases bs rule: encode_groups.cases) (simp_all add: Let_def)
  moreover have "CHR '' '' \<notin> insert (CHR ''='') (set b64chars)"
    "CHR 0x00 \<notin> insert (CHR ''='') (set b64chars)"
    by (simp_all add: b64chars_def)
  ultimately show ?thesis
    using encode_groups_chars [of bs] by (auto simp: is_token_def)
qed

lemma no_wrap:
  fixes off sz :: size_t
  assumes "unat off + k \<le> unat sz"
  shows "unat (of_nat k :: size_t) = k" and "\<not> sz < off + of_nat k"
proof -
  have "unat sz < 2 ^ 64"
    using unsigned_less [of sz, where 'a = nat] by simp
  then have small: "k < 2 ^ 64" and sum: "unat off + k < 2 ^ 64"
    using assms by linarith+
  show k: "unat (of_nat k :: size_t) = k"
    using small by (simp add: unat_of_nat)
  have "unat (off + of_nat k) = unat off + unat (of_nat k :: size_t)"
    using sum k unat_add_lem [of off "of_nat k"] by simp
  then show "\<not> sz < off + of_nat k"
    using assms k by (simp add: word_less_nat_alt)
qed

lemma wrapped_passes:
  fixes off len sz :: size_t
  assumes "unat off + unat len \<ge> 2 ^ 64" and "unat off + unat len - 2 ^ 64 \<le> unat sz"
  shows "\<not> sz < off + len"
proof -
  have lt: "unat off < 2 ^ 64" "unat len < 2 ^ 64"
    using unsigned_less [of off, where 'a = nat] unsigned_less [of len, where 'a = nat]
    by simp_all
  have "unat (off + len) = (unat off + unat len) mod 2 ^ 64"
    by (simp add: unat_word_ariths)
  also have "\<dots> = unat off + unat len - 2 ^ 64"
    using assms(1) lt by (simp add: mod_if)
  finally show ?thesis
    using assms(2) by (simp add: word_less_nat_alt)
qed

lemma hello_codec:
  "base64_encode generous hello = Some ''aGVsbG8=''"
  "base64_decode generous ''aGVsbG8='' = None"
  by (simp_all add: base64_encode_def base64_decode_def hello_def generous_def sextet_def
      b64chars_def b64val_def in_range_def)

text \<open>
  The bounds test of \<^verbatim>\<open>READ\<close> and \<^verbatim>\<open>WRITE\<close> in general: it refuses a range that
  ends beyond the size as long as the sum does not wrap, and lets a wrapped sum through
  (the read outside the block then follows unless the host refuses the output buffer).
\<close>

lemma read_out_of_bounds:
  assumes "is_token nm" "is_token offset_s" "is_token len_s"
    and "find_alloc reg nm = Some n"
    and "unat (strtoull offset_s) + unat (strtoull len_s) < 2 ^ 64"
    and "unat (strtoull offset_s) + unat (strtoull len_s) > unat (size_n n)"
  shows "handle_command h reg (''READ '' @ nm @ '' '' @ offset_s @ '' '' @ len_s)
         = Inr (''ERR out_of_bounds'', reg)"
proof -
  have "unat (strtoull offset_s + strtoull len_s)
        = unat (strtoull offset_s) + unat (strtoull len_s)"
    using assms(5) unat_add_lem [of "strtoull offset_s" "strtoull len_s"] by simp
  then have "size_n n < strtoull offset_s + strtoull len_s"
    using assms(6) by (simp add: word_less_nat_alt)
  then show ?thesis
    using handle_READ [OF assms(1,2,3), of h reg] by (simp add: assms(4))
qed

lemma write_out_of_bounds:
  assumes "is_token nm" "is_token offset_s" "is_token b64"
    and "find_alloc reg nm = Some n" and "base64_decode h b64 = Some data"
    and "unat (strtoull offset_s) + length data < 2 ^ 64"
    and "unat (strtoull offset_s) + length data > unat (size_n n)"
  shows "handle_command h reg (''WRITE '' @ nm @ '' '' @ offset_s @ '' '' @ b64)
         = Inr (''ERR out_of_bounds'', reg)"
proof -
  have len: "unat (of_nat (length data) :: size_t) = length data"
    using assms(6) by (simp add: unat_of_nat)
  then have "unat (strtoull offset_s + of_nat (length data))
        = unat (strtoull offset_s) + length data"
    using assms(6) unat_add_lem [of "strtoull offset_s" "of_nat (length data)"] by simp
  then have "size_n n < strtoull offset_s + of_nat (length data)"
    using assms(7) by (simp add: word_less_nat_alt)
  then show ?thesis
    using handle_WRITE [OF assms(1,2,3), of h reg] by (simp add: assms(4,5))
qed

lemma read_wrapped:
  assumes "is_token nm" "is_token offset_s" "is_token len_s"
    and "find_alloc reg nm = Some n" and "length (ptr n) < 2 ^ 64"
    and "unat (strtoull offset_s) + unat (strtoull len_s) \<ge> 2 ^ 64"
    and "unat (strtoull offset_s) + unat (strtoull len_s) - 2 ^ 64 \<le> unat (size_n n)"
  shows "handle_command h reg (''READ '' @ nm @ '' '' @ offset_s @ '' '' @ len_s)
         = (if malloc_ok h (encode_request (strtoull len_s)) then Inl Wild_read
            else Inr (''ERR nomem'', reg))"
  using handle_READ [OF assms(1,2,3), of h reg] wrapped_passes [OF assms(6,7)] assms(5,6)
  by (simp add: assms(4))

lemma list_entries_fits:
  "pos = length out \<Longrightarrow> length out + length (concat (map list_item reg)) + 100 < BUFSIZE
   \<Longrightarrow> list_entries reg pos out = out @ concat (map list_item reg)"
proof (induction reg arbitrary: pos out)
  case Nil
  then show ?case by simp
next
  case (Cons n ns)
  let ?out' = "out @ list_item n"
  have room: "length (list_item n) \<le> BUFSIZE - pos - 2"
    and more: "\<not> pos + length (list_item n) + 100 \<ge> BUFSIZE"
    using Cons.prems by (simp_all add: BUFSIZE_def)
  have "list_entries (n # ns) pos out = list_entries ns (pos + length (list_item n)) ?out'"
    using room more Cons.prems(1) by (simp add: Let_def)
  also have "\<dots> = ?out' @ concat (map list_item ns)"
    using Cons.prems by (intro Cons.IH) simp_all
  finally show ?case by simp
qed

lemma handle_LIST:
  "strtok (strdup line) = (Some ''LIST'', rest)
   \<Longrightarrow> handle_command h reg line = reply reg (''OK '' @ list_entries reg 0 [])"
  by (simp add: handle_command_def)

lemma dec_samples: "dec 0 = ''0''" "dec 1 = ''1''" "dec 10 = ''10''" "dec (Suc 0) = ''1''"
  by code_simp+

lemma add_alloc_sized:
  "add_alloc h reg nm sz = (rc, reg') \<Longrightarrow> list_all block_sized reg \<Longrightarrow> list_all block_sized reg'"
  by (auto simp: add_alloc_def malloc_def block_sized_def split: if_splits)

lemma remove_alloc_sized:
  "list_all block_sized reg \<Longrightarrow> list_all block_sized (snd (remove_alloc reg nm))"
  by (induction reg) auto

lemma remove_alloc_sized_pair:
  "remove_alloc reg nm = (rc, reg') \<Longrightarrow> list_all block_sized reg \<Longrightarrow> list_all block_sized reg'"
  using remove_alloc_sized [of reg nm] by simp

lemma find_alloc_sized:
  "find_alloc reg nm = Some n \<Longrightarrow> list_all block_sized reg \<Longrightarrow> block_sized n"
  by (induction reg) (auto split: if_splits)

lemma set_block_sized:
  "list_all block_sized reg \<Longrightarrow> find_alloc reg nm = Some n \<Longrightarrow> length p = length (ptr n)
   \<Longrightarrow> list_all block_sized (set_block reg nm p)"
  by (induction reg) (auto simp: block_sized_def split: if_splits)

lemma handle_command_sized:
  assumes "handle_command h reg line = Inr (sent, reg')" "list_all block_sized reg"
  shows "list_all block_sized reg'"
  using assms
  unfolding handle_command_def reply_def Let_def
  by (auto split: prod.splits option.splits if_splits sum.splits
      dest: add_alloc_sized remove_alloc_sized_pair
      intro!: set_block_sized simp: length_memcpy)

lemma block_sized_bound: "block_sized n \<Longrightarrow> unat (size_n n) \<le> length (ptr n)"
  by (simp add: block_sized_def split: if_splits)

lemma write_bad_length:
  assumes "is_token nm" "is_token offset_s" "is_token b64"
    and "find_alloc reg nm = Some n" and "length b64 mod 4 \<noteq> 0"
  shows "handle_command h reg (''WRITE '' @ nm @ '' '' @ offset_s @ '' '' @ b64)
         = Inr (''ERR bad_base64'', reg)"
  using handle_WRITE [OF assms(1,2,3), of h reg] assms(4,5)
  by (simp add: base64_decode_def)

text \<open>
  Where neither the pad character nor the length of the reply is in the way, a write is
  read back as it was written. The name has a live entry whose block is at least as long
  as its recorded size (as every block is that the commands make or change:
  \<open>handle_command_sized\<close>), \<open>b\<close> is a non-empty sequence of bytes whose number is a multiple
  of 3 and at most 6138, \<open>e\<close> its encoding, and the host grants the decoder its buffer.
\<close>

lemma write_read_round_trip:
  assumes "is_token nm" and "is_token offset_s" and "is_token len_s"
    and "find_alloc reg nm = Some n" and "unat (size_n n) \<le> length (ptr n)"
    and "b \<noteq> []" and "length b mod 3 = 0" and "length b \<le> 6138"
    and "base64_encode h b = Some e" and "malloc_ok h (length b)"
    and "strtoull len_s = of_nat (length b)"
    and "unat (strtoull offset_s) + length b \<le> unat (size_n n)"
  shows "handle_command h reg (''WRITE '' @ nm @ '' '' @ offset_s @ '' '' @ e)
           = Inr (''OK'', set_block reg nm (memcpy (ptr n) (unat (strtoull offset_s)) b))
         \<and> handle_command h (set_block reg nm (memcpy (ptr n) (unat (strtoull offset_s)) b))
               (''READ '' @ nm @ '' '' @ offset_s @ '' '' @ len_s)
           = Inr (''OK '' @ e, set_block reg nm (memcpy (ptr n) (unat (strtoull offset_s)) b))"
proof -
  let ?off = "strtoull offset_s"
  let ?block = "memcpy (ptr n) (unat ?off) b"
  let ?reg' = "set_block reg nm ?block"
  have e: "e = encode_groups b"
    using assms(9) by (auto simp: base64_encode_def split: if_splits)
  have len_e: "length e = length b div 3 * 4"
    using assms(7) by (simp add: e length_encode_groups) presburger
  have tok_e: "is_token e"
    using assms(6) by (simp add: e encode_groups_token)
  have dec: "base64_decode h e = Some b"
  proof -
    have "length e div 4 * 3 = length b"
      using assms(7) len_e by simp presburger
    then show ?thesis
      using assms(7,10) len_e decode_encode_groups [of b "[]"]
      by (simp add: base64_decode_def Let_def e)
  qed
  have fits: "unat ?off + length b \<le> length (ptr n)"
    using assms(5,12) by linarith
  have wr: "handle_command h reg (''WRITE '' @ nm @ '' '' @ offset_s @ '' '' @ e)
           = Inr (''OK'', ?reg')"
    using handle_WRITE [OF assms(1,2) tok_e, of h reg] no_wrap(2) [OF assms(12)] fits
    by (simp add: assms(4) dec)
  have found: "find_alloc ?reg' nm = Some (n\<lparr>ptr := ?block\<rparr>)"
    using assms(4) by (rule find_set_block)
  have len_tok: "unat (strtoull len_s) = length b"
    using no_wrap(1) [OF assms(12)] by (simp add: assms(11))
  have check: "\<not> size_n n < ?off + strtoull len_s"
    using no_wrap(2) [OF assms(12)] by (simp add: assms(11))
  have data: "take (length b) (drop (unat ?off) ?block) = b"
    using fits by (rule read_after_memcpy)
  have short: "length (''OK '' @ e) < 8190"
    using assms(8) len_e by simp
  have rd: "handle_command h ?reg' (''READ '' @ nm @ '' '' @ offset_s @ '' '' @ len_s)
           = Inr (''OK '' @ e, ?reg')"
    using handle_READ [OF assms(1,2,3), of h ?reg'] check fits short
    by (simp add: found len_tok data length_memcpy assms(9) reply_short)
  show ?thesis
    using wr rd by simp
qed

lemma reply_long: "length text > 8190 \<Longrightarrow> reply reg text = Inl Send_overrun"
  by (simp add: reply_def send_line_def BUFSIZE_def)

lemma write_empty_payload:
  assumes "is_token nm" "is_token offset_s"
  shows "handle_command h reg (''WRITE '' @ nm @ '' '' @ offset_s @ '' '')
         = Inr (''ERR WRITE usage'', reg)"
  using assms
  by (simp add: handle_command_def is_token_def strdup_id strtok_run strtok_Nil
      strtok_run [of "''WRITE''", simplified] reply_short Let_def)

text \<open>
  The decimal text of \<^verbatim>\<open>%zu\<close> reads back as the number, holds digits only and has no
  leading zero; and the loop of \<^verbatim>\<open>LIST\<close> up to the node at which it leaves.
\<close>

lemma digits_value_append:
  "digits_value acc (xs @ ys) = digits_value (digits_value acc xs) ys"
  by (induction xs arbitrary: acc) simp_all

lemma digit_char:
  "d < 10 \<Longrightarrow> (of_char (char_of (48 + d :: nat)) :: nat) = 48 + d"
  by simp

lemma zero_char: "(of_char (CHR ''0'') :: nat) = 48"
  by simp

lemma dec_value: "digits_value 0 (dec k) = k"
proof (induction k rule: dec.induct)
  case (1 n)
  show ?case
  proof (cases "n < 10")
    case True
    then show ?thesis
      by (subst dec.simps) (simp add: digit_char)
  next
    case False
    have last: "(of_char (char_of (48 + n mod 10)) :: nat) = 48 + n mod 10"
      by (rule digit_char) simp
    have "digits_value 0 (dec n)
          = digits_value (digits_value 0 (dec (n div 10))) [char_of (48 + n mod 10)]"
      using False by (subst dec.simps) (simp add: digits_value_append)
    also have "\<dots> = (n div 10) * 10 + n mod 10"
      using "1.IH" [OF False] by (simp add: last)
    finally show ?thesis by simp
  qed
qed

lemma dec_digits: "list_all isdigit (dec k)"
proof (induction k rule: dec.induct)
  case (1 n)
  have digit: "isdigit (char_of (48 + d :: nat))" if "d < 10" for d
    using that digit_char [OF that] by (simp add: isdigit_def in_range_def)
  show ?case
  proof (cases "n < 10")
    case True
    then show ?thesis
      by (subst dec.simps) (simp add: digit)
  next
    case False
    then show ?thesis
      using "1.IH" [OF False] by (subst dec.simps) (simp add: digit)
  qed
qed

lemma dec_not_Nil: "dec k \<noteq> []"
  by (subst dec.simps) simp

lemma dec_no_leading_zero: "k \<noteq> 0 \<Longrightarrow> hd (dec k) \<noteq> CHR ''0''"
proof (induction k rule: dec.induct)
  case (1 n)
  show ?case
  proof (cases "n < 10")
    case True
    have "char_of (48 + n) \<noteq> CHR ''0''"
    proof
      assume "char_of (48 + n) = CHR ''0''"
      then have "(of_char (char_of (48 + n)) :: nat) = of_char (CHR ''0'')"
        by (rule arg_cong)
      then show False
        using True "1.prems" by (simp add: digit_char)
    qed
    with True show ?thesis
      by (subst dec.simps) simp
  next
    case False
    then have "n div 10 \<noteq> 0" by simp
    then have "hd (dec (n div 10)) \<noteq> CHR ''0''"
      by (rule "1.IH" [OF False])
    then show ?thesis
      using False dec_not_Nil [of "n div 10"] by (subst dec.simps) simp
  qed
qed

lemma list_entries_front:
  "pos = length out \<Longrightarrow> length out + length (concat (map list_item front)) + 100 < BUFSIZE
   \<Longrightarrow> list_entries (front @ later) pos out
       = list_entries later (pos + length (concat (map list_item front)))
           (out @ concat (map list_item front))"
proof (induction front arbitrary: pos out)
  case Nil
  then show ?case by simp
next
  case (Cons n ns)
  let ?out' = "out @ list_item n"
  have room: "length (list_item n) \<le> BUFSIZE - pos - 2"
    and more: "\<not> pos + length (list_item n) + 100 \<ge> BUFSIZE"
    using Cons.prems by (simp_all add: BUFSIZE_def)
  have "list_entries ((n # ns) @ later) pos out
        = list_entries (ns @ later) (pos + length (list_item n)) ?out'"
    using room more Cons.prems(1) by (simp add: Let_def)
  also have "\<dots> = list_entries later
                     (pos + length (list_item n) + length (concat (map list_item ns)))
                     (?out' @ concat (map list_item ns))"
    using Cons.prems by (intro Cons.IH) simp_all
  finally show ?case by (simp add: add.assoc)
qed

lemma list_entries_stop:
  "pos = length out \<Longrightarrow> BUFSIZE \<le> pos + length (list_item n) + 100
   \<Longrightarrow> pos + length (list_item n) \<le> BUFSIZE - 2
   \<Longrightarrow> list_entries (n # later) pos out = out @ list_item n"
  by (simp add: Let_def)

lemma list_entries_cut:
  assumes "length (concat (map list_item front)) \<le> 8091"
    and "8092 \<le> length (concat (map list_item (front @ [n])))"
    and "length (concat (map list_item (front @ [n]))) \<le> 8190"
  shows "list_entries (front @ n # later) 0 [] = concat (map list_item (front @ [n]))"
proof -
  let ?pos = "length (concat (map list_item front))"
  have "list_entries (front @ n # later) 0 []
        = list_entries (n # later) (0 + ?pos) ([] @ concat (map list_item front))"
    using assms(1) by (intro list_entries_front) (simp_all add: BUFSIZE_def)
  also have "\<dots> = concat (map list_item front) @ list_item n"
    using assms(2,3) by (intro list_entries_stop [THEN trans]) (simp_all add: BUFSIZE_def)
  finally show ?thesis by simp
qed

section \<open>The claims\<close>

text \<open>
  C1. The node \<open>foo10\<close> has size 10. For the offset \<open>2\<^sup>6\<^sup>4 - 3\<close> and the three bytes of
  the payload \<^verbatim>\<open>QUJD\<close>, and for the offset \<open>2\<^sup>6\<^sup>4 - 1\<close> and the length 1, the sum
  exceeds 10, but the sum \<^verbatim>\<open>offset + data_len\<close> (\<^verbatim>\<open>offset + len\<close>) of the code is
  taken in \<^verbatim>\<open>size_t\<close> and is 0: the test against the size passes, and \<^verbatim>\<open>memcpy\<close>
  writes, and \<^verbatim>\<open>base64_encode\<close> reads, before the first byte of the block. The claim
  asks for \<^verbatim>\<open>ERR out_of_bounds\<close> there. (A sum that does not wrap is refused as
  claimed: \<open>read_out_of_bounds\<close>, \<open>write_out_of_bounds\<close>.)
\<close>

theorem bounds_check_wraps:
  "(18446744073709551613 :: size_t) + of_nat (length [65, 66, 67 :: u8]) = 0
   \<and> handle_command generous [foo10] ''WRITE foo 18446744073709551613 QUJD'' = Inl Wild_write
   \<and> (18446744073709551615 :: size_t) + 1 = 0
   \<and> handle_command generous [foo10] ''READ foo 18446744073709551615 1'' = Inl Wild_read"
proof -
  have toks: "is_token ''foo''" "is_token ''18446744073709551613''" "is_token ''QUJD''"
    "is_token ''18446744073709551615''" "is_token ''1''"
    by (simp_all add: is_token_def)
  have one: "strtoull ''1'' = 1"
    by (simp add: strtoull_def isspace_def isdigit_def in_range_def)
  have dec: "base64_decode generous ''QUJD'' = Some [65, 66, 67]"
    by (simp add: base64_decode_def generous_def b64val_def in_range_def)
  have wr: "handle_command generous [foo10] ''WRITE foo 18446744073709551613 QUJD''
            = Inl Wild_write"
    using handle_WRITE [OF toks(1,2,3), of generous "[foo10]"]
    by (simp add: dec foo10_def strtoull_samples)
  have rd: "handle_command generous [foo10] ''READ foo 18446744073709551615 1'' = Inl Wild_read"
    using handle_READ [OF toks(1,4,5), of generous "[foo10]"]
    by (simp add: foo10_def strtoull_samples one generous_def)
  show ?thesis
    using wr rd by simp
qed

text \<open>
  C2. The node \<open>foo10\<close> is live and \<^verbatim>\<open>!\<close> is no character of the alphabet and not
  the pad character. \<^verbatim>\<open>base64_decode\<close> gives it the value -1 in the fourth place of a
  group, which passes the test \<^verbatim>\<open>v3 < -1\<close> and is then taken for padding: the payload
  decodes to the two bytes \<^verbatim>\<open>AB\<close>, the command is answered \<^verbatim>\<open>OK\<close>, and the block
  is changed. The claim asks for \<^verbatim>\<open>ERR bad_base64\<close> and an unchanged block.
\<close>

theorem write_bad_char_accepted:
  "in_range (CHR ''A'') (CHR ''Z'') (CHR ''!'') = False
   \<and> base64_decode generous ''QUJ!'' = Some [65, 66]
   \<and> handle_command generous [foo10] ''WRITE foo 0 QUJ!''
       = Inr (''OK'', [\<lparr>name = ''foo'', ptr = [65, 66, 0, 0, 0, 0, 0, 0, 0, 0], size_n = 10\<rparr>])
   \<and> handle_command generous [foo10] ''WRITE foo 0 QUJ!''
       \<noteq> Inr (''ERR bad_base64'', [foo10])"
proof -
  have dec: "base64_decode generous ''QUJ!'' = Some [65, 66]"
    by (simp add: base64_decode_def generous_def b64val_def in_range_def)
  have toks: "strtok (strdup ''WRITE foo 0 QUJ!'') = (Some ''WRITE'', ''foo 0 QUJ!'')"
    "strtok ''foo 0 QUJ!'' = (Some ''foo'', ''0 QUJ!'')"
    "strtok ''0 QUJ!'' = (Some ''0'', ''QUJ!'')"
    "strtok ''QUJ!'' = (Some ''QUJ!'', [])"
    by (simp_all add: strtok_def strdup_def)
  have run: "handle_command generous [foo10] ''WRITE foo 0 QUJ!''
       = Inr (''OK'', [\<lparr>name = ''foo'', ptr = [65, 66, 0, 0, 0, 0, 0, 0, 0, 0], size_n = 10\<rparr>])"
    unfolding handle_command_def Let_def
    by (simp add: toks dec foo10_def strtoull_samples reply_short memcpy_def replicate_10)
  show ?thesis
    using dec run by (simp add: in_range_def foo10_def replicate_10)
qed

text \<open>
  C3. The scenario of the claim, on a host that grants every request and hands out
  blocks of zero bytes. The payload \<^verbatim>\<open>aGVsbG8=\<close> is what \<^verbatim>\<open>base64_encode\<close> makes of
  the five bytes of \<^verbatim>\<open>hello\<close>; it ends in the pad character, \<^verbatim>\<open>base64_decode\<close>
  fails on it, the \<^verbatim>\<open>WRITE\<close> is answered \<^verbatim>\<open>ERR bad_base64\<close>, and the \<^verbatim>\<open>READ\<close>
  after it returns the encoding of the five untouched bytes of the block. The claim asks
  for \<^verbatim>\<open>OK\<close> and \<^verbatim>\<open>OK aGVsbG8=\<close>. A read of 6141 bytes, which lie inside the block
  of \<open>big_node\<close>, makes a reply of 8191 characters, and \<^verbatim>\<open>send_line\<close> leaves its
  buffer of 8192 bytes: the claim asks for \<^verbatim>\<open>OK\<close> and the encoding there as well.
\<close>

theorem scenario_rejected:
  "base64_encode generous hello = Some ''aGVsbG8=''
   \<and> session []
         [Some (generous, ''ALLOC foo 10''), Some (generous, ''WRITE foo 0 aGVsbG8=''),
          Some (generous, ''READ foo 0 5''), Some (generous, ''FREE foo''),
          Some (generous, ''READ foo 0 5'')]
       = ([Sent ''OK'', Sent ''ERR bad_base64'', Sent ''OK AAAAAAA='', Sent ''OK'',
           Sent ''ERR not_found''], [])
   \<and> handle_command generous [big_node] ''READ big 0 6141'' = Inl Send_overrun"
proof -
  have enc: "base64_encode generous hello = Some ''aGVsbG8=''"
    by (rule hello_codec)
  have toks: "is_token ''foo''" "is_token ''0''" "is_token ''5''" "is_token ''10''"
    "is_token ''aGVsbG8=''" "is_token ''big''" "is_token ''6141''"
    by (simp_all add: is_token_def)
  have nums: "strtoull ''5'' = 5" "strtoull ''6141'' = 6141"
    by (simp_all add: strtoull_def isspace_def isdigit_def in_range_def)
  have s1: "handle_command generous [] ''ALLOC foo 10'' = Inr (''OK'', [foo10])"
    using handle_ALLOC [OF toks(1,4), of generous "[]"]
    by (simp add: strtoull_samples add_alloc_def malloc_def generous_def foo10_def
        map_replicate_const)
  have s2: "handle_command generous [foo10] ''WRITE foo 0 aGVsbG8=''
            = Inr (''ERR bad_base64'', [foo10])"
    using handle_WRITE [OF toks(1,2,5), of generous "[foo10]"]
    by (simp add: foo10_def hello_codec)
  have zeros: "base64_encode generous [0, 0, 0, 0, 0] = Some ''AAAAAAA=''"
    by (simp add: base64_encode_def generous_def sextet_def b64chars_def)
  have s3: "handle_command generous [foo10] ''READ foo 0 5'' = Inr (''OK AAAAAAA='', [foo10])"
    using handle_READ [OF toks(1,2,3), of generous "[foo10]"] zeros
    by (simp add: foo10_def strtoull_samples nums replicate_10 reply_short)
  have s4: "handle_command generous [foo10] ''FREE foo'' = Inr (''OK'', [])"
    using handle_FREE [OF toks(1), of generous "[foo10]"] by (simp add: foo10_def)
  have s5: "handle_command generous [] ''READ foo 0 5'' = Inr (''ERR not_found'', [])"
    using handle_READ [OF toks(1,2,3), of generous "[]"] by simp
  have big: "base64_encode generous (replicate 6141 0) = Some (encode_groups (replicate 6141 0))"
    by (simp add: base64_encode_def generous_def)
  have "length (''OK '' @ encode_groups (replicate 6141 (0 :: u8))) > 8190"
    by (simp add: length_encode_groups)
  then have over: "reply [big_node] (''OK '' @ encode_groups (replicate 6141 0)) = Inl Send_overrun"
    by (rule reply_long)
  have s6: "handle_command generous [big_node] ''READ big 0 6141'' = Inl Send_overrun"
    using handle_READ [OF toks(6,2,7), of generous "[big_node]"] over
    by (simp add: big_node_def strtoull_samples nums big)
  show ?thesis
    using enc s6 by (simp add: s1 s2 s3 s4 s5)
qed

text \<open>
  C4. What \<^verbatim>\<open>base64_decode\<close> makes of the output of \<^verbatim>\<open>base64_encode\<close>, on hosts
  that grant both buffers: the bytes \<open>b\<close> when their number is a multiple of 3, and a
  failure (\<^verbatim>\<open>NULL\<close>) in every other case, where the encoder has ended its output with
  one or two \<^verbatim>\<open>=\<close>. The decoder gives the pad character the value -2 and then
  rejects every value below -1, so it fails on every input of a length divisible by 4
  that holds the pad character anywhere. The claim asks for \<open>b\<close> in all three cases.
\<close>

theorem decode_of_encode:
  "(base64_encode h b = Some e \<longrightarrow> malloc_ok h' ((length e div 4) * 3)
      \<longrightarrow> base64_decode h' e = (if length b mod 3 = 0 then Some b else None))
   \<and> (CHR ''='' \<in> set inp \<longrightarrow> base64_decode h' inp = None)"
proof -
  have enc: "base64_decode h' e = (if length b mod 3 = 0 then Some b else None)"
    if "base64_encode h b = Some e" and "malloc_ok h' ((length e div 4) * 3)"
  proof -
    have e: "e = encode_groups b"
      using that(1) by (simp add: base64_encode_def Let_def split: if_splits)
    have "length e mod 4 = 0"
      by (simp add: e length_encode_groups)
    then have "base64_decode h' e = decode_loop (encode_groups b) []"
      using that(2) by (simp add: base64_decode_def Let_def e)
    then show ?thesis
      using decode_encode_groups [of b "[]"] encode_groups_padded [of b "[]"] by simp
  qed
  have pad: "base64_decode h' inp = None" if "CHR ''='' \<in> set inp"
    using that decode_loop_pad [of inp "[]"] by (simp add: base64_decode_def Let_def)
  show ?thesis
    using enc pad by simp
qed

theorem decode_of_encode_witness:
  "base64_encode generous hello = Some ''aGVsbG8=''
   \<and> malloc_ok generous ((length ''aGVsbG8='' div 4) * 3)
   \<and> length hello mod 3 = 2
   \<and> base64_decode generous ''aGVsbG8='' = None"
proof -
  have enc: "base64_encode generous hello = Some ''aGVsbG8=''"
    by (simp add: base64_encode_def hello_def generous_def sextet_def b64chars_def)
  show ?thesis
    using decode_of_encode [of generous hello "''aGVsbG8=''" generous "[]"] enc
    by (simp add: hello_def generous_def)
qed

text \<open>
  C5, as amended. The names of the registry are pairwise distinct: in the empty initial
  registry, after every command that \<^verbatim>\<open>handle_command\<close> answers, whatever the line
  and the host, and so in the registry a session leaves, whatever it received. An
  \<^verbatim>\<open>ALLOC name size\<close> that was not answered \<^verbatim>\<open>ERR nomem\<close>, followed by the same
  line, is answered \<^verbatim>\<open>ERR already_exists\<close> the second time, whatever the host does
  by then, and the second call leaves the registry as it found it.
\<close>

theorem one_entry_per_name:
  "distinct (map name ([] :: AllocNode list))
   \<and> (distinct (map name reg) \<longrightarrow> handle_command h reg line = Inr (sent, reg')
        \<longrightarrow> distinct (map name reg'))
   \<and> distinct (map name (snd (session [] evs)))
   \<and> (is_token nm \<longrightarrow> is_token size_s
        \<longrightarrow> handle_command h reg (''ALLOC '' @ nm @ '' '' @ size_s) = Inr (sent1, reg1)
        \<longrightarrow> sent1 \<noteq> ''ERR nomem''
        \<longrightarrow> handle_command h' reg1 (''ALLOC '' @ nm @ '' '' @ size_s)
             = Inr (''ERR already_exists'', reg1))"
proof -
  have step: "distinct (map name reg) \<longrightarrow> handle_command h reg line = Inr (sent, reg')
        \<longrightarrow> distinct (map name reg')"
    using handle_command_distinct by blast
  have run: "distinct (map name (snd (session [] evs)))"
    by (rule session_distinct) simp
  have twice: "handle_command h' reg1 (''ALLOC '' @ nm @ '' '' @ size_s)
             = Inr (''ERR already_exists'', reg1)"
    if tok: "is_token nm" "is_token size_s"
      and first: "handle_command h reg (''ALLOC '' @ nm @ '' '' @ size_s) = Inr (sent1, reg1)"
      and granted: "sent1 \<noteq> ''ERR nomem''"
  proof -
    have "find_alloc reg1 nm \<noteq> None"
      using first granted handle_ALLOC [OF tok, of h reg]
      by (auto simp: add_alloc_def malloc_def Let_def split: if_splits option.splits)
    then show ?thesis
      using handle_ALLOC [OF tok, of h' reg1] by (simp add: add_alloc_def)
  qed
  show ?thesis
    using step run twice by simp
qed

theorem one_entry_per_name_witness:
  "distinct (map name [foo10])
   \<and> handle_command generous [] ''ALLOC foo 10'' = Inr (''OK'', [foo10])
   \<and> handle_command generous [foo10] ''ALLOC foo 10'' = Inr (''ERR already_exists'', [foo10])"
proof -
  have first: "handle_command generous [] ''ALLOC foo 10'' = Inr (''OK'', [foo10])"
    using handle_ALLOC [of "''foo''" "''10''" generous "[]"]
    by (simp add: is_token_def strtoull_samples add_alloc_def malloc_def generous_def
        foo10_def map_replicate_const)
  have toks: "is_token ''foo''" "is_token ''10''"
    by (simp_all add: is_token_def)
  have "distinct (map name ([] :: AllocNode list))" by simp
  then show ?thesis
    using one_entry_per_name [of "[]" generous "''ALLOC foo 10''" "''OK''" "[foo10]"
        "[]" "''foo''" "''10''" "''OK''" "[foo10]" generous] first toks
    by simp
qed

text \<open>
  The claim C5 as written, for any name and size, fails where the host refuses the
  block: both calls are then answered \<^verbatim>\<open>ERR nomem\<close>.
\<close>

theorem double_alloc_nomem:
  "handle_command bounded_host [] ''ALLOC foo 18446744073709551615'' = Inr (''ERR nomem'', [])
   \<and> handle_command bounded_host [] ''ALLOC foo 18446744073709551615''
       \<noteq> Inr (''ERR already_exists'', [])"
  using handle_ALLOC [of "''foo''" "''18446744073709551615''" bounded_host "[]"]
  by (simp add: is_token_def strtoull_samples add_alloc_def malloc_def bounded_host_def)

text \<open>
  C6, as amended. A line whose first token is \<^verbatim>\<open>LIST\<close> is answered \<^verbatim>\<open>OK\<close>, a space
  and the items of the nodes in the order of the registry, and leaves the registry as it
  is. An item is the name, a colon, the size in decimal and a semicolon, after the last
  pair as well. All nodes are listed when their items have at most 8091 characters
  together. Otherwise the listing ends with the first node at which the items reach 8092
  characters, the nodes behind it are left out, and this is proved as long as the items
  sent have at most 8186 characters together, so that the reply fits the buffer of
  \<^verbatim>\<open>send_line\<close>. The order of the registry is most recently created first, and a freed
  entry is absent: an \<^verbatim>\<open>ALLOC\<close> answered \<^verbatim>\<open>OK\<close> puts its item before the others, and
  a \<^verbatim>\<open>FREE\<close> leaves the nodes of the other names in their order.
\<close>

theorem list_reply:
  "(strtok (strdup line) = (Some ''LIST'', rest)
      \<longrightarrow> length (concat (map list_item reg)) \<le> 8091
      \<longrightarrow> handle_command h reg line = Inr (''OK '' @ concat (map list_item reg), reg))
   \<and> (strtok (strdup line) = (Some ''LIST'', rest)
      \<longrightarrow> length (concat (map list_item front)) \<le> 8091
      \<longrightarrow> 8092 \<le> length (concat (map list_item (front @ [n])))
      \<longrightarrow> length (concat (map list_item (front @ [n]))) \<le> 8186
      \<longrightarrow> handle_command h (front @ n # later) line
          = Inr (''OK '' @ concat (map list_item (front @ [n])), front @ n # later))
   \<and> list_item n = name n @ '':'' @ dec (unat (size_n n)) @ '';''
   \<and> digits_value 0 (dec k) = k \<and> list_all isdigit (dec k)
   \<and> (k \<noteq> 0 \<longrightarrow> hd (dec k) \<noteq> CHR ''0'')
   \<and> (is_token nm \<longrightarrow> is_token size_s
      \<longrightarrow> handle_command h before (''ALLOC '' @ nm @ '' '' @ size_s) = Inr (''OK'', after)
      \<longrightarrow> map list_item after
          = (nm @ '':'' @ dec (unat (strtoull size_s)) @ '';'') # map list_item before)
   \<and> (is_token nm \<longrightarrow> distinct (map name live)
      \<longrightarrow> handle_command h live (''FREE '' @ nm) = Inr (sent, left)
      \<longrightarrow> left = filter (\<lambda>n. name n \<noteq> nm) live)"
proof -
  have listing: "handle_command h reg line = Inr (''OK '' @ concat (map list_item reg), reg)"
    if "strtok (strdup line) = (Some ''LIST'', rest)"
      and "length (concat (map list_item reg)) \<le> 8091"
  proof -
    have "list_entries reg 0 [] = [] @ concat (map list_item reg)"
      using that(2) by (intro list_entries_fits) (simp_all add: BUFSIZE_def)
    then show ?thesis
      using that by (simp add: handle_LIST reply_short)
  qed
  have cut: "handle_command h (front @ n # later) line
          = Inr (''OK '' @ concat (map list_item (front @ [n])), front @ n # later)"
    if "strtok (strdup line) = (Some ''LIST'', rest)"
      and "length (concat (map list_item front)) \<le> 8091"
      and "8092 \<le> length (concat (map list_item (front @ [n])))"
      and "length (concat (map list_item (front @ [n]))) \<le> 8186"
  proof -
    have "list_entries (front @ n # later) 0 [] = concat (map list_item (front @ [n]))"
      using that(2,3,4) by (intro list_entries_cut) simp_all
    moreover have "length (''OK '' @ concat (map list_item (front @ [n]))) < 8190"
      using that(4) by simp
    ultimately show ?thesis
      using that(1) by (simp only: handle_LIST reply_short)
  qed
  have newest: "map list_item after
          = (nm @ '':'' @ dec (unat (strtoull size_s)) @ '';'') # map list_item before"
    if "is_token nm" "is_token size_s"
      and "handle_command h before (''ALLOC '' @ nm @ '' '' @ size_s) = Inr (''OK'', after)"
    using that(3) handle_ALLOC [OF that(1,2), of h before]
    by (auto simp: add_alloc_def malloc_def Let_def list_item_def split: if_splits)
  have freed: "left = filter (\<lambda>n. name n \<noteq> nm) live"
    if "is_token nm" "distinct (map name live)"
      and "handle_command h live (''FREE '' @ nm) = Inr (sent, left)"
    using that(3) handle_FREE [OF that(1), of h live] remove_alloc_filter [OF that(2), of nm]
    by (auto simp: Let_def split: if_splits)
  have item: "list_item n = name n @ '':'' @ dec (unat (size_n n)) @ '';''"
    by (simp add: list_item_def)
  show ?thesis
    using listing cut newest freed item dec_value [of k] dec_digits [of k]
      dec_no_leading_zero [of k]
    by blast
qed

theorem list_reply_witness:
  "handle_command generous [b0, foo10] ''LIST'' = Inr (''OK b:0;foo:10;'', [b0, foo10])
   \<and> handle_command generous [long_node, foo10] ''LIST''
       = Inr (''OK '' @ replicate 8100 (CHR ''a'') @ '':1;'', [long_node, foo10])
   \<and> handle_command generous [foo10] ''ALLOC b 0'' = Inr (''OK'', [b0, foo10])
   \<and> map list_item [b0, foo10] = [''b:0;'', ''foo:10;'']
   \<and> handle_command generous [b0, foo10] ''FREE b'' = Inr (''OK'', [foo10])
   \<and> digits_value 0 (dec 10) = 10"
proof -
  have items: "map list_item [b0, foo10] = [''b:0;'', ''foo:10;'']"
    "list_item long_node = replicate 8100 (CHR ''a'') @ '':1;''"
    by (simp_all add: list_item_def b0_def foo10_def long_node_def dec_samples)
  have tok: "strtok (strdup ''LIST'') = (Some ''LIST'', [])"
    by (simp add: strtok_def strdup_def)
  have toks: "is_token ''b''" "is_token ''0''"
    by (simp_all add: is_token_def)
  have alloc: "handle_command generous [foo10] ''ALLOC b 0'' = Inr (''OK'', [b0, foo10])"
    using handle_ALLOC [OF toks, of generous "[foo10]"]
    by (simp add: strtoull_samples add_alloc_def malloc_def generous_def foo10_def b0_def)
  have free: "handle_command generous [b0, foo10] ''FREE b'' = Inr (''OK'', [foo10])"
    using handle_FREE [OF toks(1), of generous "[b0, foo10]"]
    by (simp add: b0_def foo10_def)
  have names: "distinct (map name [b0, foo10])"
    by (simp add: b0_def foo10_def)
  show ?thesis
    using list_reply [where line = "''LIST''" and rest = "[]" and reg = "[b0, foo10]"
        and h = generous and front = "[]" and n = long_node and later = "[foo10]"
        and k = 10 and nm = "''b''" and size_s = "''0''" and before = "[foo10]"
        and after = "[b0, foo10]" and live = "[b0, foo10]" and sent = "''OK''"
        and left = "[foo10]"]
      tok items alloc free names
    by simp
qed

text \<open>
  The claim C6 as written fails in three ways. The pairs are not joined by the
  semicolon: each of them, the last as well, is followed by one. A registry whose items
  are long is listed in part: after the node \<open>long_node\<close> the position has passed the
  limit of the loop, and the node \<open>foo10\<close> behind it is left out. And the command can
  fail: the item of \<open>huge_node\<close> fills the buffer of the listing, the reply is longer than
  the buffer of \<^verbatim>\<open>send_line\<close>, and the newline is stored outside it.
\<close>

theorem list_not_joined:
  "handle_command generous [b0, foo10] ''LIST'' = Inr (''OK b:0;foo:10;'', [b0, foo10])
   \<and> handle_command generous [b0, foo10] ''LIST'' \<noteq> Inr (''OK b:0;foo:10'', [b0, foo10])
   \<and> handle_command generous [long_node, foo10] ''LIST''
       = Inr (''OK '' @ replicate 8100 (CHR ''a'') @ '':1;'', [long_node, foo10])
   \<and> handle_command generous [huge_node] ''LIST'' = Inl Send_overrun"
proof -
  have tok: "strtok (strdup ''LIST'') = (Some ''LIST'', [])"
    by (simp add: strtok_def strdup_def)
  have short: "list_entries [b0, foo10] 0 [] = ''b:0;foo:10;''"
    by (simp add: Let_def list_item_def b0_def foo10_def dec_samples BUFSIZE_def)
  have long: "list_entries [long_node, foo10] 0 [] = replicate 8100 (CHR ''a'') @ '':1;''"
    by (simp add: Let_def list_item_def long_node_def dec_samples BUFSIZE_def)
  have huge: "list_entries [huge_node] 0 [] = replicate 8190 (CHR ''a'')"
    by (simp add: Let_def list_item_def huge_node_def dec_samples BUFSIZE_def)
  have r1: "handle_command generous [b0, foo10] ''LIST''
            = Inr (''OK b:0;foo:10;'', [b0, foo10])"
    unfolding handle_LIST [OF tok] short by (simp add: reply_short)
  have r2: "handle_command generous [long_node, foo10] ''LIST''
            = Inr (''OK '' @ replicate 8100 (CHR ''a'') @ '':1;'', [long_node, foo10])"
    unfolding handle_LIST [OF tok] long by (simp add: reply_short)
  have r3: "handle_command generous [huge_node] ''LIST'' = Inl Send_overrun"
    unfolding handle_LIST [OF tok] huge by (rule reply_long) simp
  show ?thesis
    unfolding r1 r2 r3 by simp
qed

text \<open>
  C7. A line whose first token is \<^verbatim>\<open>EXIT\<close> is answered \<^verbatim>\<open>OK bye\<close> and leaves the
  registry as it is, whatever follows the token. In the session loop the answer is
  followed by the session's answers to the later deliveries, from the same registry: the
  loop goes on reading. The socket is closed only in a session to which
  \<^verbatim>\<open>recv_line\<close> has delivered \<^verbatim>\<open>NULL\<close> (end of stream or a read error).
\<close>

theorem exit_keeps_session:
  "(strtok (strdup line) = (Some ''EXIT'', rest)
      \<longrightarrow> handle_command h reg line = Inr (''OK bye'', reg)
          \<and> session reg (Some (h, line) # later)
              = (Sent ''OK bye'' # fst (session reg later), snd (session reg later)))
   \<and> (Closed \<in> set (fst (session reg evs)) \<longrightarrow> None \<in> set evs)"
proof -
  have "handle_command h reg line = Inr (''OK bye'', reg)"
    if "strtok (strdup line) = (Some ''EXIT'', rest)"
    using that by (simp add: handle_command_def reply_short)
  then show ?thesis
    using session_Closed [of reg evs] by simp
qed

theorem exit_keeps_session_witness:
  "strtok (strdup ''EXIT'') = (Some ''EXIT'', [])
   \<and> handle_command generous [foo10] ''EXIT'' = Inr (''OK bye'', [foo10])
   \<and> session [foo10] [Some (generous, ''EXIT''), Some (generous, ''FREE foo''), None]
       = ([Sent ''OK bye'', Sent ''OK'', Closed], [])
   \<and> None \<in> set [Some (generous, ''EXIT''), Some (generous, ''FREE foo''), None]"
proof -
  have tok: "strtok (strdup ''EXIT'') = (Some ''EXIT'', [])"
    by (simp add: strtok_def strdup_def)
  have later: "session [foo10] [Some (generous, ''FREE foo''), None] = ([Sent ''OK'', Closed], [])"
    using handle_FREE [of "''foo''" generous "[foo10]"]
    by (simp add: is_token_def foo10_def)
  show ?thesis
    using exit_keeps_session [of "''EXIT''" "[]" generous "[foo10]"
        "[Some (generous, ''FREE foo''), None]"
        "[Some (generous, ''EXIT''), Some (generous, ''FREE foo''), None]"] tok later
    by simp
qed

text \<open>
  C8, as amended. For a name with a live entry, in a registry of distinct names,
  \<^verbatim>\<open>FREE name\<close> answers \<^verbatim>\<open>OK\<close> and leaves the other entries, in their order; no
  entry of that name is left; a second \<^verbatim>\<open>FREE name\<close> answers \<^verbatim>\<open>ERR not_found\<close>;
  and an \<^verbatim>\<open>ALLOC name size\<close> after it is never refused for the name: it answers
  \<^verbatim>\<open>OK\<close> and puts the new node at the head when the host grants the block, and
  \<^verbatim>\<open>ERR nomem\<close> when it does not.
\<close>

theorem free_then_reuse:
  assumes "is_token nm" and "is_token size_s"
    and "find_alloc reg nm \<noteq> None" and "distinct (map name reg)"
  shows "handle_command h reg (''FREE '' @ nm) = Inr (''OK'', filter (\<lambda>n. name n \<noteq> nm) reg)
     \<and> find_alloc (filter (\<lambda>n. name n \<noteq> nm) reg) nm = None
     \<and> handle_command h (filter (\<lambda>n. name n \<noteq> nm) reg) (''FREE '' @ nm)
         = Inr (''ERR not_found'', filter (\<lambda>n. name n \<noteq> nm) reg)
     \<and> handle_command h (filter (\<lambda>n. name n \<noteq> nm) reg) (''ALLOC '' @ nm @ '' '' @ size_s)
         = (case malloc h (if strtoull size_s \<noteq> 0 then unat (strtoull size_s) else 1) of
              None \<Rightarrow> Inr (''ERR nomem'', filter (\<lambda>n. name n \<noteq> nm) reg)
            | Some p \<Rightarrow> Inr (''OK'', \<lparr>name = nm, ptr = p, size_n = strtoull size_s\<rparr>
                                    # filter (\<lambda>n. name n \<noteq> nm) reg))"
proof -
  let ?reg' = "filter (\<lambda>n. name n \<noteq> nm) reg"
  have gone: "find_alloc ?reg' nm = None"
    using find_after_remove [OF assms(4), of nm] remove_alloc_filter [OF assms(4), of nm]
    by simp
  have first: "handle_command h reg (''FREE '' @ nm) = Inr (''OK'', ?reg')"
    using handle_FREE [OF assms(1), of h reg] remove_alloc_found [OF assms(3)]
      remove_alloc_filter [OF assms(4), of nm]
    by (simp add: Let_def)
  have second: "handle_command h ?reg' (''FREE '' @ nm) = Inr (''ERR not_found'', ?reg')"
    using handle_FREE [OF assms(1), of h ?reg'] remove_alloc_missing [OF gone]
    by (simp add: Let_def)
  have again: "handle_command h ?reg' (''ALLOC '' @ nm @ '' '' @ size_s)
         = (case malloc h (if strtoull size_s \<noteq> 0 then unat (strtoull size_s) else 1) of
              None \<Rightarrow> Inr (''ERR nomem'', ?reg')
            | Some p \<Rightarrow> Inr (''OK'', \<lparr>name = nm, ptr = p, size_n = strtoull size_s\<rparr> # ?reg'))"
    using handle_ALLOC [OF assms(1,2), of h ?reg'] gone
    by (simp add: add_alloc_def Let_def split: option.splits)
  show ?thesis
    using gone first second again by simp
qed

theorem free_then_reuse_witness:
  "handle_command generous [foo10] ''FREE foo'' = Inr (''OK'', [])
   \<and> handle_command generous [] ''FREE foo'' = Inr (''ERR not_found'', [])
   \<and> handle_command generous [] ''ALLOC foo 10'' = Inr (''OK'', [foo10])"
  using free_then_reuse [of "''foo''" "''10''" "[foo10]" generous]
  by (simp add: is_token_def strtoull_samples foo10_def malloc_def generous_def
      map_replicate_const)

text \<open>
  The claim C8 as written promises that the \<^verbatim>\<open>ALLOC\<close> after the \<^verbatim>\<open>FREE\<close> succeeds.
  On a host that refuses the block it is answered \<^verbatim>\<open>ERR nomem\<close>.
\<close>

theorem reuse_nomem:
  "handle_command bounded_host [foo10] ''FREE foo'' = Inr (''OK'', [])
   \<and> handle_command bounded_host [] ''ALLOC foo 18446744073709551615'' = Inr (''ERR nomem'', [])"
  using handle_FREE [of "''foo''" bounded_host "[foo10]"]
    handle_ALLOC [of "''foo''" "''18446744073709551615''" bounded_host "[]"]
  by (simp add: is_token_def strtoull_samples add_alloc_def malloc_def bounded_host_def foo10_def)

text \<open>
  C9. \<^verbatim>\<open>ALLOC name 0\<close>, for a name with no live entry and a host that grants one byte,
  answers \<^verbatim>\<open>OK\<close> and puts a node of recorded size 0 at the head of the registry; its
  block is one byte long (\<^verbatim>\<open>add_alloc\<close> requests \<^verbatim>\<open>size ? size : 1\<close> bytes), so the
  node found under the name has a block that is not empty. The size token is any token
  that \<^verbatim>\<open>strtoull\<close> reads as 0.
\<close>

theorem alloc_size_zero:
  assumes "is_token nm" and "is_token size_s" and "strtoull size_s = 0"
    and "find_alloc reg nm = None" and "malloc_ok h 1"
  shows "handle_command h reg (''ALLOC '' @ nm @ '' '' @ size_s)
           = Inr (''OK'', \<lparr>name = nm, ptr = [garbage h 0], size_n = 0\<rparr> # reg)
         \<and> find_alloc (\<lparr>name = nm, ptr = [garbage h 0], size_n = 0\<rparr> # reg) nm
           = Some \<lparr>name = nm, ptr = [garbage h 0], size_n = 0\<rparr>"
  using assms handle_ALLOC [of nm size_s h reg] by (simp add: add_alloc_def malloc_def)

theorem alloc_size_zero_witness:
  "is_token ''foo'' \<and> is_token ''0'' \<and> strtoull ''0'' = 0 \<and> find_alloc [] ''foo'' = None
   \<and> malloc_ok generous 1
   \<and> handle_command generous [] ''ALLOC foo 0''
       = Inr (''OK'', [\<lparr>name = ''foo'', ptr = [0], size_n = 0\<rparr>])"
  using alloc_size_zero [of "''foo''" "''0''" "[]" generous]
  by (simp add: is_token_def strtoull_samples generous_def)

text \<open>
  C10, as amended. A line that is empty or holds only spaces (up to its first NUL) is
  answered \<^verbatim>\<open>ERR empty\<close> and leaves the registry as it is; \<open>empty\<close> is none of the
  error tokens the specification lists.
\<close>

theorem blank_line_empty:
  "set (strdup line) \<subseteq> {CHR '' ''} \<Longrightarrow>
     handle_command h reg line = Inr (''ERR empty'', reg)
     \<and> ''empty'' \<notin> set documented_errors"
  by (simp add: handle_command_def strtok_spaces reply_short documented_errors_def)

theorem blank_line_empty_witness:
  "set (strdup ''   '') \<subseteq> {CHR '' ''}
   \<and> handle_command generous [foo10] ''   '' = Inr (''ERR empty'', [foo10])
   \<and> handle_command generous [foo10] [] = Inr (''ERR empty'', [foo10])"
  using blank_line_empty [of "''   ''" generous "[foo10]"]
    blank_line_empty [of "[]" generous "[foo10]"]
  by (simp add: strdup_def)

text \<open>
  The claim C10 as written covers every line of white space. \<^verbatim>\<open>strtok\<close> is called
  with the space as its only delimiter, so a line that holds a tab is a token, and the
  answer is \<^verbatim>\<open>ERR unknown_command\<close>.
\<close>

theorem tab_line_unknown:
  "isspace (CHR 0x09)
   \<and> handle_command generous [] [CHR 0x09] = Inr (''ERR unknown_command'', [])
   \<and> handle_command generous [] [CHR 0x09] \<noteq> Inr (''ERR empty'', [])"
  by (simp add: handle_command_def strdup_def strtok_def reply_short isspace_def in_range_def)

end
